theory Spec2Isabelle
  imports Complex_Main "HOL-Library.Word"
begin

section \<open>cpuloadgen: the duty-cycle load generator of \<^verbatim>\<open>cpuloadgen.c\<close>\<close>

text \<open>
  Conventions of the embedding.
  \<^item> \<^verbatim>\<open>unsigned int\<close> is a 32-bit word; \<^verbatim>\<open>int\<close> and \<^verbatim>\<open>long int\<close> values are
    \<open>int\<close>, and every conversion to \<^verbatim>\<open>unsigned int\<close> is written \<open>word_of_int\<close>
    (reduction modulo \<open>2 ^ 32\<close>, which is what C prescribes).
  \<^item> \<^verbatim>\<open>double\<close> is \<open>real\<close>: exact arithmetic on finite values, rounding is not
    modelled. The two places where a \<^verbatim>\<open>double\<close> of the program can leave the
    finite values or the range of its target type are written out as branches
    (see \<open>double_to_uint\<close> and \<open>sleep_arg\<close>).
  \<^item> The clocks are the environment: the \<open>k\<close>-th call of \<^verbatim>\<open>dtime()\<close> and of
    \<^verbatim>\<open>gettimeofday()\<close> return what the environment says; the state counts the calls.
  \<^item> The state also keeps the trace of the calls and messages a task issues, in order.
\<close>

type_synonym u32 = "32 word"

subsection \<open>State, environment, trace\<close>

datatype event =
    Msg_generating u32        \<comment> \<open>\<^verbatim>\<open>printf("Generating %3d%% load...\n", load)\<close>\<close>
  | Msg_invalid_cpu u32       \<comment> \<open>\<^verbatim>\<open>fprintf(stderr, "%s: invalid cpu argument!!! (%d)\n", ...)\<close>\<close>
  | Call_workload u32         \<comment> \<open>\<^verbatim>\<open>workload(n)\<close>\<close>
  | Call_usleep u32           \<comment> \<open>\<^verbatim>\<open>usleep(us)\<close>\<close>
  | Call_mutex_unlock         \<comment> \<open>\<^verbatim>\<open>pthread_mutex_unlock(&mutex1)\<close>\<close>

record timeval =
  tv_sec :: int
  tv_usec :: int

record env =
  dtime_val :: "nat \<Rightarrow> real"        \<comment> \<open>result of the \<open>k\<close>-th call of \<^verbatim>\<open>dtime()\<close>, seconds\<close>
  tod_val :: "nat \<Rightarrow> timeval"        \<comment> \<open>result of the \<open>k\<close>-th call of \<^verbatim>\<open>gettimeofday()\<close>\<close>

record world =
  dtime_calls :: nat
  tod_calls :: nat
  rand_calls :: nat
  sqrt_calls :: nat
  events :: "event list"

definition world0 :: world where
  "world0 = \<lparr>dtime_calls = 0, tod_calls = 0, rand_calls = 0, sqrt_calls = 0, events = []\<rparr>"

definition emit :: "event \<Rightarrow> world \<Rightarrow> world" where
  "emit e w = w\<lparr>events := events w @ [e]\<rparr>"

definition dtime :: "env \<Rightarrow> world \<Rightarrow> real \<times> world" where
  "dtime en w = (dtime_val en (dtime_calls w), w\<lparr>dtime_calls := Suc (dtime_calls w)\<rparr>)"

definition gettimeofday :: "env \<Rightarrow> world \<Rightarrow> timeval \<times> world" where
  "gettimeofday en w = (tod_val en (tod_calls w), w\<lparr>tod_calls := Suc (tod_calls w)\<rparr>)"

text \<open>\<^verbatim>\<open>(double) tv.tv_sec + ((double) tv.tv_usec * 1.0e-6)\<close>\<close>

definition tv_seconds :: "timeval \<Rightarrow> real" where
  "tv_seconds tv = real_of_int (tv_sec tv) + real_of_int (tv_usec tv) * (1 / 1000000)"

definition usleep :: "u32 \<Rightarrow> world \<Rightarrow> world" where
  "usleep us w = emit (Call_usleep us) w"

subsection \<open>The Workload Unit\<close>

text \<open>
  \<^verbatim>\<open>
  void workload(unsigned int iterations)
  {
      while (iterations-- > 0) {
          sqrt(rand());
      }
  }
  \<close>
  One pass of the body draws one pseudo-random number and takes one square root; the
  result is dropped. The counter is a parameter passed by value.
\<close>

definition sqrt_rand :: "world \<Rightarrow> world" where
  "sqrt_rand w = w\<lparr>rand_calls := Suc (rand_calls w), sqrt_calls := Suc (sqrt_calls w)\<rparr>"

function workload :: "u32 \<Rightarrow> world \<Rightarrow> world" where
  "workload iterations w =
     (if iterations > 0 then workload (iterations - 1) (sqrt_rand w) else w)"
  by pat_completeness auto
termination
  by (relation "measure (\<lambda>(iterations, w). unat iterations)")
     (auto simp: unat_minus_one word_greater_zero_iff unat_gt_0)

declare workload.simps [simp del]

definition run_workload :: "u32 \<Rightarrow> world \<Rightarrow> world" where
  "run_workload n w = workload n (emit (Call_workload n) w)"

subsection \<open>Conversions and the duty-cycle arithmetic\<close>

text \<open>
  \<^verbatim>\<open>(unsigned int) x\<close> for a \<^verbatim>\<open>double x\<close> drops the fractional part (towards zero).
  C defines the result only when the truncated value fits the target type; outside of
  that the program has no defined result, which the model returns as \<open>None\<close>.
\<close>

definition trunc :: "real \<Rightarrow> int" where
  "trunc x = (if 0 \<le> x then \<lfloor>x\<rfloor> else \<lceil>x\<rceil>)"

definition double_to_uint :: "real \<Rightarrow> u32 option" where
  "double_to_uint x =
     (let t = trunc x in if 0 \<le> t \<and> t < 2 ^ 32 then Some (word_of_int t) else None)"

text \<open>\<^verbatim>\<open>active_time_us = (workload_end_time - workload_start_time) * 1.0e6\<close>\<close>

definition active_time_us :: "real \<Rightarrow> real \<Rightarrow> real" where
  "active_time_us workload_start_time workload_end_time =
     (workload_end_time - workload_start_time) * 1000000"

text \<open>\<^verbatim>\<open>total_time_us = active_time_us * (100.0 / (double) (load + 1))\<close>, where
  \<^verbatim>\<open>load + 1\<close> is an \<^verbatim>\<open>unsigned int\<close> sum.\<close>

definition total_time_us :: "real \<Rightarrow> u32 \<Rightarrow> real" where
  "total_time_us active load = active * (100 / real (unat (load + 1)))"

text \<open>\<^verbatim>\<open>idle_time_us = total_time_us - active_time_us\<close>\<close>

definition idle_time_us :: "real \<Rightarrow> u32 \<Rightarrow> real" where
  "idle_time_us active load = total_time_us active load - active"

text \<open>
  The argument of \<^verbatim>\<open>usleep((unsigned int) (idle_time_us))\<close>. When \<^verbatim>\<open>load + 1\<close> wraps
  to \<open>0\<close> the quotient \<^verbatim>\<open>100.0 / 0.0\<close> is infinite, the idle time is infinite or not a
  number, and its conversion is not defined either.
\<close>

definition sleep_arg :: "real \<Rightarrow> u32 \<Rightarrow> u32 option" where
  "sleep_arg active load =
     (if load + 1 = 0 then None else double_to_uint (idle_time_us active load))"

text \<open>\<^verbatim>\<open>(duration != 0) && (time_us - loadgen_start_time_us) >= duration\<close>\<close>

definition deadline_reached :: "u32 \<Rightarrow> real \<Rightarrow> real \<Rightarrow> bool" where
  "deadline_reached dur loadgen_start_time_us time_us =
     (dur \<noteq> 0 \<and> time_us - loadgen_start_time_us \<ge> real (unat dur))"

subsection \<open>The Duty-Cycle Controller\<close>

text \<open>
  Where a run of a loop stands: still inside the loop, left through \<^verbatim>\<open>break\<close>, or
  stopped at a conversion without a defined result.
\<close>

datatype 'a run = Looping 'a | Returned 'a | Undefined_conversion 'a

fun state_of :: "'a run \<Rightarrow> 'a" where
  "state_of (Looping w) = w"
| "state_of (Returned w) = w"
| "state_of (Undefined_conversion w) = w"

text \<open>One pass of the body of the loop of lines 369-416 (\<^verbatim>\<open>load != 100\<close>).\<close>

definition partial_iteration :: "env \<Rightarrow> u32 \<Rightarrow> u32 \<Rightarrow> real \<Rightarrow> world \<Rightarrow> world run" where
  "partial_iteration en load dur loadgen_start_time_us w =
     (let (workload_start_time, w1) = dtime en w;
          w2 = run_workload 50000 w1;
          (workload_end_time, w3) = dtime en w2;
          active = active_time_us workload_start_time workload_end_time
      in case sleep_arg active load of
           None \<Rightarrow> Undefined_conversion w3
         | Some us \<Rightarrow>
             (let w4 = usleep us w3;
                  (tv_cpuloadgen, w5) = gettimeofday en w4;
                  time_us = tv_seconds tv_cpuloadgen
              in if deadline_reached dur loadgen_start_time_us time_us
                 then Returned w5 else Looping w5))"

text \<open>One pass of the body of the loop of lines 418-428 (\<^verbatim>\<open>load == 100\<close>).\<close>

definition full_iteration :: "env \<Rightarrow> u32 \<Rightarrow> real \<Rightarrow> world \<Rightarrow> world run" where
  "full_iteration en dur loadgen_start_time_us w =
     (let w1 = run_workload 1000000 w;
          (tv_cpuloadgen, w2) = gettimeofday en w1;
          time_us = tv_seconds tv_cpuloadgen
      in if deadline_reached dur loadgen_start_time_us time_us
         then Returned w2 else Looping w2)"

text \<open>
  Both loops are \<^verbatim>\<open>while (1)\<close>: they may run forever. The first argument bounds the
  number of passes the model follows; \<open>Looping w\<close> says that after that many passes the
  task is still inside the loop, in state \<open>w\<close>.
\<close>

fun partial_loop :: "nat \<Rightarrow> env \<Rightarrow> u32 \<Rightarrow> u32 \<Rightarrow> real \<Rightarrow> world \<Rightarrow> world run" where
  "partial_loop 0 en load dur start w = Looping w"
| "partial_loop (Suc n) en load dur start w =
     (case partial_iteration en load dur start w of
        Looping w' \<Rightarrow> partial_loop n en load dur start w'
      | Returned w' \<Rightarrow> Returned w'
      | Undefined_conversion w' \<Rightarrow> Undefined_conversion w')"

fun full_loop :: "nat \<Rightarrow> env \<Rightarrow> u32 \<Rightarrow> real \<Rightarrow> world \<Rightarrow> world run" where
  "full_loop 0 en dur start w = Looping w"
| "full_loop (Suc n) en dur start w =
     (case full_iteration en dur start w of
        Looping w' \<Rightarrow> full_loop n en dur start w'
      | Returned w' \<Rightarrow> Returned w'
      | Undefined_conversion w' \<Rightarrow> Undefined_conversion w')"

text \<open>
  \<^verbatim>\<open>void loadgen(unsigned int cpu, unsigned int load, unsigned int duration)\<close>, as it is
  compiled: \<^verbatim>\<open>CPU_AFFINITY\<close> and \<^verbatim>\<open>DEBUG\<close> are not defined.
\<close>

definition loadgen :: "nat \<Rightarrow> env \<Rightarrow> u32 \<Rightarrow> u32 \<Rightarrow> u32 \<Rightarrow> world \<Rightarrow> world run" where
  "loadgen n en cpu load dur w =
     (let w0 = emit (Msg_generating load) w;
          (tv_cpuloadgen_start, w1) = gettimeofday en w0;
          loadgen_start_time_us = tv_seconds tv_cpuloadgen_start
      in if load \<noteq> 100
         then partial_loop n en load dur loadgen_start_time_us w1
         else full_loop n en dur loadgen_start_time_us w1)"

subsection \<open>The task entry point\<close>

text \<open>The globals a task reads: \<^verbatim>\<open>cpu_count\<close>, \<^verbatim>\<open>cpuloads\<close> and \<^verbatim>\<open>duration\<close>.\<close>

record globals =
  cpu_count :: int
  cpuloads :: "int list"
  duration :: int

text \<open>
  \<^verbatim>\<open>thread_loadgen\<close>, from the value \<open>cpu\<close> it reads through its pointer argument.
  The arguments of \<^verbatim>\<open>loadgen\<close> are converted to \<^verbatim>\<open>unsigned int\<close> by the call.
  \<^verbatim>\<open>cpuloads\<close> has \<^verbatim>\<open>cpu_count\<close> elements, so the guard keeps the read in range.
\<close>

definition thread_loadgen :: "nat \<Rightarrow> env \<Rightarrow> globals \<Rightarrow> u32 \<Rightarrow> world \<Rightarrow> world run" where
  "thread_loadgen n en g cpu w =
     (let w0 = emit Call_mutex_unlock w
      in if cpu < word_of_int (cpu_count g)
         then loadgen n en cpu (word_of_int (cpuloads g ! unat cpu)) (word_of_int (duration g)) w0
         else Returned (emit (Msg_invalid_cpu cpu) w0))"

subsection \<open>The configuration \<^verbatim>\<open>main\<close> builds\<close>

text \<open>
  What \<^verbatim>\<open>main\<close> does with one command-line argument after \<^verbatim>\<open>sscanf\<close> has read it:
  \<open>Arg_cpu (Some (n, load))\<close> is an argument starting with \<^verbatim>\<open>c\<close> from which
  \<^verbatim>\<open>"cpu%d=%d"\<close> read both numbers, \<open>Arg_cpu None\<close> one where it did not;
  likewise \<open>Arg_duration\<close> for \<^verbatim>\<open>"duration=%ld"\<close>; \<open>Arg_other\<close> starts with another
  character.
\<close>

datatype arg = Arg_cpu "(int \<times> int) option" | Arg_duration "int option" | Arg_other

definition EINVAL :: int where "EINVAL = 22"
definition ENOMEM :: int where "ENOMEM = 12"

fun parse_arg :: "arg \<Rightarrow> globals \<Rightarrow> int + globals" where
  "parse_arg (Arg_cpu None) g = Inl (- EINVAL)"
| "parse_arg (Arg_cpu (Some (n, load))) g =
     (if (n < 0 \<or> n \<ge> cpu_count g) \<or> (load < 1 \<or> load > 100) then Inl (- EINVAL)
      else if cpuloads g ! nat n \<noteq> - 1 then Inl (- EINVAL)
      else Inr (g\<lparr>cpuloads := (cpuloads g)[nat n := load]\<rparr>))"
| "parse_arg (Arg_duration None) g = Inl (- EINVAL)"
| "parse_arg (Arg_duration (Some duration2)) g =
     (if duration2 < 1 then Inl (- EINVAL)
      else if duration g \<noteq> - 1 then Inl (- EINVAL)
      else Inr (g\<lparr>duration := duration2\<rparr>))"
| "parse_arg Arg_other g = Inl (- EINVAL)"

fun parse_args :: "arg list \<Rightarrow> globals \<Rightarrow> int + globals" where
  "parse_args [] g = Inr g"
| "parse_args (a # as) g =
     (case parse_arg a g of Inl e \<Rightarrow> Inl e | Inr g' \<Rightarrow> parse_args as g')"

text \<open>Lines 226-279: \<open>args\<close> are \<^verbatim>\<open>argv[1]\<close> to \<^verbatim>\<open>argv[argc - 1]\<close>.\<close>

definition configure :: "int \<Rightarrow> arg list \<Rightarrow> int + globals" where
  "configure n args =
     (if args = []
      then Inr \<lparr>cpu_count = n, cpuloads = replicate (nat n) 100, duration = - 1\<rparr>
      else parse_args args
             \<lparr>cpu_count = n, cpuloads = replicate (nat n) (- 1), duration = - 1\<rparr>)"

subsection \<open>The Orchestrator: the two loops of \<^verbatim>\<open>main\<close>\<close>

text \<open>
  A \<^verbatim>\<open>pthread_t\<close> slot of \<^verbatim>\<open>threads\<close> holds the initial \<^verbatim>\<open>-1\<close> or the handle that
  a successful \<^verbatim>\<open>pthread_create(&threads[i], ...)\<close> stored there.
\<close>

datatype pthread = No_thread | Thread nat

datatype main_event =
    Call_mutex_lock
  | Created nat nat            \<comment> \<open>\<^verbatim>\<open>pthread_create\<close> returned 0 for slot \<open>i\<close>, with \<^verbatim>\<open>cpu\<close>\<close>
  | Msg_failed_fork nat int    \<comment> \<open>\<^verbatim>\<open>"cpuloadgen: failed to fork %d! (%d)"\<close>\<close>
  | Call_join pthread          \<comment> \<open>\<^verbatim>\<open>pthread_join(threads[i], NULL)\<close>\<close>

record main_state =
  mutex1_locked :: bool
  threads :: "pthread list"
  trace :: "main_event list"

text \<open>
  How \<^verbatim>\<open>main\<close> gets on: through its loops, blocked for ever in
  \<^verbatim>\<open>pthread_mutex_lock\<close>, or at a \<^verbatim>\<open>pthread_join\<close> on a slot that holds no thread,
  a call without a defined result.
\<close>

datatype main_run = Done main_state | Blocked main_state | Undefined_join main_state

fun main_state_of :: "main_run \<Rightarrow> main_state" where
  "main_state_of (Done s) = s"
| "main_state_of (Blocked s) = s"
| "main_state_of (Undefined_join s) = s"

text \<open>
  Lines 284-305, for the indices \<open>is\<close> still to visit. \<open>create_ret i\<close> is what
  \<^verbatim>\<open>pthread_create\<close> returns for slot \<open>i\<close>. \<^verbatim>\<open>pthread_mutex_lock\<close> returns once the
  mutex is free; the one \<^verbatim>\<open>pthread_mutex_unlock\<close> of the program is the first action of
  a created task, so a mutex left locked by a failed creation stays locked. This is the
  loop as \<^verbatim>\<open>main\<close> goes through it when every created task unlocks the mutex before
  \<^verbatim>\<open>main\<close> asks for it again. A failed creation is taken to leave its slot as it was.
\<close>

fun start_tasks :: "(nat \<Rightarrow> int) \<Rightarrow> int list \<Rightarrow> nat list \<Rightarrow> main_state \<Rightarrow> main_run" where
  "start_tasks create_ret loads [] s = Done s"
| "start_tasks create_ret loads (i # is) s =
     (if loads ! i = - 1 then start_tasks create_ret loads is s
      else if mutex1_locked s then Blocked s
      else
        (let s1 = s\<lparr>mutex1_locked := True, trace := trace s @ [Call_mutex_lock]\<rparr>;
             cpu = i;
             ret = create_ret i
         in if ret \<noteq> 0
            then start_tasks create_ret loads is (s1\<lparr>trace := trace s1 @ [Msg_failed_fork i ret]\<rparr>)
            else start_tasks create_ret loads is
                   (s1\<lparr>threads := (threads s1)[i := Thread i],
                       mutex1_locked := False,
                       trace := trace s1 @ [Created i cpu]\<rparr>)))"

text \<open>
  Lines 307-312: the calls of \<^verbatim>\<open>pthread_join\<close>, in order. A call on the handle of a
  created thread is taken to return. A call on a slot that still holds the initial
  \<^verbatim>\<open>-1\<close> names no thread: that call has no defined result, and the model stops there.
\<close>

fun join_tasks :: "int list \<Rightarrow> nat list \<Rightarrow> main_state \<Rightarrow> main_run" where
  "join_tasks loads [] s = Done s"
| "join_tasks loads (i # is) s =
     (if loads ! i = - 1 then join_tasks loads is s
      else
        (let s1 = s\<lparr>trace := trace s @ [Call_join (threads s ! i)]\<rparr>
         in case threads s ! i of
              No_thread \<Rightarrow> Undefined_join s1
            | Thread k \<Rightarrow> join_tasks loads is s1))"

definition main_state0 :: "nat \<Rightarrow> main_state" where
  "main_state0 n = \<lparr>mutex1_locked = False, threads = replicate n No_thread, trace = []\<rparr>"

definition run_tasks :: "(nat \<Rightarrow> int) \<Rightarrow> globals \<Rightarrow> main_run" where
  "run_tasks create_ret g =
     (let n = nat (cpu_count g)
      in case start_tasks create_ret (cpuloads g) [0..<n] (main_state0 n) of
           Blocked s \<Rightarrow> Blocked s
         | Undefined_join s \<Rightarrow> Undefined_join s
         | Done s \<Rightarrow> join_tasks (cpuloads g) [0..<n] s)"

text \<open>
  \<^verbatim>\<open>main\<close>: \<open>nprocs\<close> is the result of \<^verbatim>\<open>sysconf(_SC_NPROCESSORS_ONLN)\<close>,
  \<open>malloc_ok\<close> says whether both buffers were allocated. \<open>Inl\<close> is an early
  \<^verbatim>\<open>return\<close> with that value.
\<close>

definition main :: "int \<Rightarrow> bool \<Rightarrow> arg list \<Rightarrow> (nat \<Rightarrow> int) \<Rightarrow> int + main_run" where
  "main nprocs malloc_ok args create_ret =
     (if nprocs < 1 then Inl nprocs
      else if \<not> malloc_ok then Inl (- ENOMEM)
      else case configure nprocs args of
             Inl e \<Rightarrow> Inl e
           | Inr g \<Rightarrow> Inr (run_tasks create_ret g))"

text \<open>The tasks a trace says were started, and the handles it says were joined.\<close>

fun started :: "main_event list \<Rightarrow> nat list" where
  "started [] = []"
| "started (Created i c # es) = i # started es"
| "started (e # es) = started es"

fun joined :: "main_event list \<Rightarrow> pthread list" where
  "joined [] = []"
| "joined (Call_join t # es) = t # joined es"
| "joined (e # es) = joined es"

subsection \<open>The start-time handoff, interleaved\<close>

text \<open>
  The first loop of \<^verbatim>\<open>main\<close> again, now statement by statement and interleaved with the
  first two statements of the tasks it creates (lines 174 and 175 of
  \<^verbatim>\<open>thread_loadgen\<close>). The orchestrator stands before the test of the loop
  (\<open>At_head\<close>, lines 284-297, up to and including \<^verbatim>\<open>pthread_mutex_lock\<close>), before
  \<^verbatim>\<open>cpu = i\<close> (\<open>At_assign\<close>), before \<^verbatim>\<open>pthread_create\<close> (\<open>At_create\<close>), or
  before the test of its result and \<^verbatim>\<open>i++\<close> (\<open>At_next ret\<close>). A task has been created
  (\<open>Spawned\<close>), has copied \<^verbatim>\<open>*ptr\<close> into its own \<^verbatim>\<open>cpu\<close> (\<open>Copied\<close>), or has
  also unlocked the mutex (\<open>Unlocked\<close>).

  The statements are atomic and any thread may take the next step. The variable
  \<^verbatim>\<open>cpu\<close> of \<^verbatim>\<open>main\<close>, whose address every task receives, is one cell for all passes
  of the loop; \<^verbatim>\<open>mutex1\<close> is free or held, and a task may unlock the mutex that
  \<^verbatim>\<open>main\<close> locked. A step of a thread that cannot move (a lock on a held mutex, a task
  that does not exist) leaves the state as it is.
\<close>

datatype actor = Orchestrator | Task nat

datatype main_pc = At_head | At_assign | At_create | At_next int

datatype task_pc = Spawned | Copied u32 | Unlocked u32

record sys =
  loop_i :: nat
  main_at :: main_pc
  cpu_cell :: int
  mutex1 :: bool
  task_of :: "nat \<Rightarrow> task_pc option"

definition sys0 :: "int \<Rightarrow> sys" where
  "sys0 c =
     \<lparr>loop_i = 0, main_at = At_head, cpu_cell = c, mutex1 = False, task_of = (\<lambda>k. None)\<rparr>"

definition orchestrator_step :: "(nat \<Rightarrow> int) \<Rightarrow> int list \<Rightarrow> sys \<Rightarrow> sys" where
  "orchestrator_step create_ret loads s =
     (case main_at s of
        At_head \<Rightarrow>
          if loop_i s < length loads
          then if loads ! loop_i s = - 1 then s\<lparr>loop_i := Suc (loop_i s)\<rparr>
               else if mutex1 s then s
               else s\<lparr>main_at := At_assign, mutex1 := True\<rparr>
          else s
      | At_assign \<Rightarrow> s\<lparr>main_at := At_create, cpu_cell := int (loop_i s)\<rparr>
      | At_create \<Rightarrow>
          (let ret = create_ret (loop_i s)
           in if ret = 0
              then s\<lparr>main_at := At_next ret, task_of := (task_of s)(loop_i s := Some Spawned)\<rparr>
              else s\<lparr>main_at := At_next ret\<rparr>)
      | At_next ret \<Rightarrow> s\<lparr>loop_i := Suc (loop_i s), main_at := At_head\<rparr>)"

definition task_step :: "nat \<Rightarrow> sys \<Rightarrow> sys" where
  "task_step k s =
     (case task_of s k of
        None \<Rightarrow> s
      | Some Spawned \<Rightarrow>
          s\<lparr>task_of := (task_of s)(k := Some (Copied (word_of_int (cpu_cell s))))\<rparr>
      | Some (Copied cpu) \<Rightarrow>
          s\<lparr>mutex1 := False, task_of := (task_of s)(k := Some (Unlocked cpu))\<rparr>
      | Some (Unlocked cpu) \<Rightarrow> s)"

fun step :: "(nat \<Rightarrow> int) \<Rightarrow> int list \<Rightarrow> actor \<Rightarrow> sys \<Rightarrow> sys" where
  "step create_ret loads Orchestrator s = orchestrator_step create_ret loads s"
| "step create_ret loads (Task k) s = task_step k s"

fun interleave :: "(nat \<Rightarrow> int) \<Rightarrow> int list \<Rightarrow> actor list \<Rightarrow> sys \<Rightarrow> sys" where
  "interleave create_ret loads [] s = s"
| "interleave create_ret loads (a # as) s =
     interleave create_ret loads as (step create_ret loads a s)"

text \<open>
  The index a task has observed, once it has made its copy; and whether a task still
  owes its unlock.
\<close>

fun observed :: "task_pc option \<Rightarrow> u32 option" where
  "observed (Some (Copied cpu)) = Some cpu"
| "observed (Some (Unlocked cpu)) = Some cpu"
| "observed t = None"

fun pending :: "task_pc option \<Rightarrow> bool" where
  "pending (Some Spawned) = True"
| "pending (Some (Copied cpu)) = True"
| "pending t = False"

text \<open>What every state of an interleaving satisfies.\<close>

definition handoff_inv :: "int list \<Rightarrow> sys \<Rightarrow> bool" where
  "handoff_inv loads s =
     ((\<forall>k cpu. observed (task_of s k) = Some cpu \<longrightarrow> cpu = of_nat k)
    \<and> (\<forall>k. pending (task_of s k) \<longrightarrow>
          mutex1 s \<and> (main_at s = At_head \<or> main_at s = At_next 0)
          \<and> (\<forall>k'. pending (task_of s k') \<longrightarrow> k' = k))
    \<and> (\<forall>k. task_of s k = Some Spawned \<longrightarrow> cpu_cell s = int k)
    \<and> (main_at s = At_assign \<or> main_at s = At_create \<longrightarrow> mutex1 s)
    \<and> (main_at s = At_create \<longrightarrow> cpu_cell s = int (loop_i s))
    \<and> (\<forall>k. task_of s k \<noteq> None \<longrightarrow>
          k < length loads \<and> loads ! k \<noteq> - 1
          \<and> (k < loop_i s \<or> k = loop_i s \<and> main_at s = At_next 0))
    \<and> (main_at s \<noteq> At_head \<longrightarrow> loop_i s < length loads \<and> loads ! loop_i s \<noteq> - 1))"

subsection \<open>Closed forms of the states a run of the controller passes through\<close>

text \<open>The time the \<open>k\<close>-th call of \<^verbatim>\<open>gettimeofday\<close> after state \<open>w\<close> reads, in seconds.\<close>

definition check_time :: "env \<Rightarrow> world \<Rightarrow> nat \<Rightarrow> real" where
  "check_time en w k = tv_seconds (tod_val en (tod_calls w + k))"

text \<open>The active time the \<open>k\<close>-th pass of the partial-load loop after state \<open>w\<close> measures.\<close>

definition burst_active :: "env \<Rightarrow> world \<Rightarrow> nat \<Rightarrow> real" where
  "burst_active en w k =
     active_time_us (dtime_val en (dtime_calls w + 2 * k)) (dtime_val en (dtime_calls w + 2 * k + 1))"

definition pass_events :: "env \<Rightarrow> u32 \<Rightarrow> world \<Rightarrow> nat \<Rightarrow> event list" where
  "pass_events en load w k =
     (case sleep_arg (burst_active en w k) load of
        None \<Rightarrow> [Call_workload 50000]
      | Some us \<Rightarrow> [Call_workload 50000, Call_usleep us])"

definition after_partial :: "env \<Rightarrow> u32 \<Rightarrow> nat \<Rightarrow> world \<Rightarrow> world" where
  "after_partial en load k w =
     w\<lparr>dtime_calls := dtime_calls w + 2 * k,
       tod_calls := tod_calls w + k,
       rand_calls := rand_calls w + k * 50000,
       sqrt_calls := sqrt_calls w + k * 50000,
       events := events w @ concat (map (pass_events en load w) [0..<k])\<rparr>"

text \<open>The state in which \<^verbatim>\<open>loadgen\<close> enters its loop: message printed, start time read.\<close>

definition entered :: "u32 \<Rightarrow> world \<Rightarrow> world" where
  "entered load w =
     w\<lparr>events := events w @ [Msg_generating load], tod_calls := Suc (tod_calls w)\<rparr>"

definition after_full :: "nat \<Rightarrow> world \<Rightarrow> world" where
  "after_full k w =
     w\<lparr>tod_calls := tod_calls w + k,
       rand_calls := rand_calls w + k * 1000000,
       sqrt_calls := sqrt_calls w + k * 1000000,
       events := events w @ replicate k (Call_workload 1000000)\<rparr>"

fun is_usleep :: "event \<Rightarrow> bool" where
  "is_usleep (Call_usleep us) = True"
| "is_usleep e = False"

subsection \<open>Concrete environments\<close>

text \<open>
  A steady machine: every burst of the partial-load loop measures 1 ms, and the wall
  clock advances by one second from one reading to the next.
\<close>

definition env_steady :: env where
  "env_steady =
     \<lparr>dtime_val = (\<lambda>k. real k / 1000), tod_val = (\<lambda>k. \<lparr>tv_sec = int k, tv_usec = 0\<rparr>)\<rparr>"

text \<open>A clock that is set back by one second during the first burst.\<close>

definition env_clock_back :: env where
  "env_clock_back =
     \<lparr>dtime_val = (\<lambda>k. if k = 0 then 10 else 9),
      tod_val = (\<lambda>k. \<lparr>tv_sec = int k, tv_usec = 0\<rparr>)\<rparr>"

text \<open>A wall clock that reads 0 first and \<open>2 ^ 32 - 1\<close> seconds from then on.\<close>

definition env_far :: env where
  "env_far =
     \<lparr>dtime_val = (\<lambda>k. real k / 1000),
      tod_val = (\<lambda>k. \<lparr>tv_sec = (if k = 0 then 0 else 4294967295), tv_usec = 0\<rparr>)\<rparr>"

text \<open>Thread creation that always succeeds, and one that always fails with \<^verbatim>\<open>EAGAIN\<close>.\<close>

definition create_ok :: "nat \<Rightarrow> int" where
  "create_ok i = 0"

definition create_fails :: "nat \<Rightarrow> int" where
  "create_fails i = 11"

text \<open>What \<^verbatim>\<open>cpuloadgen cpu0=50 cpu2=100 duration=5\<close> configures on three cores.\<close>

definition three_cores :: globals where
  "three_cores = \<lparr>cpu_count = 3, cpuloads = [50, - 1, 100], duration = 5\<rparr>"

text \<open>Two loaded cores, and a schedule in which the orchestrator runs ahead of task 0.\<close>

definition two_cores :: "int list" where
  "two_cores = [100, 100]"

definition sched_interleaved :: "actor list" where
  "sched_interleaved =
     [Orchestrator, Orchestrator, Orchestrator, Task 0, Orchestrator, Orchestrator, Task 0,
      Orchestrator, Orchestrator, Orchestrator, Orchestrator, Task 1, Task 1]"

section \<open>Properties\<close>

subsection \<open>The Workload Unit returns after exactly its iterations\<close>

lemma workload_eq:
  "workload n w = w\<lparr>rand_calls := rand_calls w + unat n, sqrt_calls := sqrt_calls w + unat n\<rparr>"
proof (induction n w rule: workload.induct)
  case (1 iterations w)
  show ?case
  proof (cases "iterations > 0")
    case True
    then have "unat iterations \<noteq> 0" by (simp add: unat_gt_0 word_greater_zero_iff)
    with True 1 show ?thesis
      by (subst workload.simps) (simp add: sqrt_rand_def unat_minus_one word_greater_zero_iff)
  next
    case False
    then show ?thesis by (subst workload.simps) (simp add: word_greater_zero_iff)
  qed
qed

lemma run_workload_eq:
  "run_workload n w =
     w\<lparr>rand_calls := rand_calls w + unat n, sqrt_calls := sqrt_calls w + unat n,
       events := events w @ [Call_workload n]\<rparr>"
  by (simp add: run_workload_def workload_eq emit_def)

text \<open>
  C8. For every iteration count \<open>n\<close> the Workload Unit returns, after exactly \<open>n\<close>
  passes of its body: \<open>n\<close> pseudo-random draws and \<open>n\<close> square roots. Nothing else
  of the state changes: no clock is read, no call or message is issued.
\<close>

theorem workload_performs_iterations:
  "workload n w =
     w\<lparr>rand_calls := rand_calls w + unat n, sqrt_calls := sqrt_calls w + unat n\<rparr>"
  by (rule workload_eq)

theorem workload_performs_iterations_witness:
  "workload 50000 world0 =
     \<lparr>dtime_calls = 0, tod_calls = 0, rand_calls = 50000, sqrt_calls = 50000, events = []\<rparr>"
  using workload_performs_iterations [of 50000 world0] by (simp add: world0_def)

subsection \<open>Unrolling the two loops\<close>

lemma full_iteration_eq:
  "full_iteration en dur start w =
     (if deadline_reached dur start (check_time en w 0)
      then Returned (after_full 1 w) else Looping (after_full 1 w))"
  by (simp add: full_iteration_def run_workload_eq gettimeofday_def check_time_def
      after_full_def Let_def)

lemma partial_iteration_eq:
  "partial_iteration en load dur start w =
     (case sleep_arg (burst_active en w 0) load of
        None \<Rightarrow> Undefined_conversion
          (w\<lparr>dtime_calls := dtime_calls w + 2, rand_calls := rand_calls w + 50000,
             sqrt_calls := sqrt_calls w + 50000, events := events w @ [Call_workload 50000]\<rparr>)
      | Some us \<Rightarrow>
          if deadline_reached dur start (check_time en w 0)
          then Returned (after_partial en load 1 w) else Looping (after_partial en load 1 w))"
  by (simp add: partial_iteration_def run_workload_eq gettimeofday_def dtime_def check_time_def
      after_partial_def pass_events_def burst_active_def usleep_def emit_def Let_def
      split: option.splits)

lemma after_full_add: "after_full k (after_full j w) = after_full (j + k) w"
  by (simp add: after_full_def replicate_add add_mult_distrib)

lemma check_time_after_full: "check_time en (after_full j w) k = check_time en w (j + k)"
  by (simp add: check_time_def after_full_def add.assoc)

lemma full_loop_looping:
  "(\<And>k. k < n \<Longrightarrow> \<not> deadline_reached dur start (check_time en w k)) \<Longrightarrow>
   full_loop n en dur start w = Looping (after_full n w)"
proof (induction n arbitrary: w)
  case 0
  show ?case by (simp add: after_full_def)
next
  case (Suc n)
  have h0: "\<not> deadline_reached dur start (check_time en w 0)" using Suc.prems by simp
  have "full_loop n en dur start (after_full 1 w) = Looping (after_full n (after_full 1 w))"
  proof (rule Suc.IH)
    fix k assume "k < n"
    then show "\<not> deadline_reached dur start (check_time en (after_full 1 w) k)"
      using Suc.prems [of "Suc k"] by (simp add: check_time_after_full)
  qed
  with h0 show ?case by (simp add: full_iteration_eq after_full_add)
qed

lemma full_loop_returned:
  "(\<And>k. k < m \<Longrightarrow> \<not> deadline_reached dur start (check_time en w k)) \<Longrightarrow>
   deadline_reached dur start (check_time en w m) \<Longrightarrow> m < n \<Longrightarrow>
   full_loop n en dur start w = Returned (after_full (Suc m) w)"
proof (induction m arbitrary: w n)
  case 0
  then obtain n' where "n = Suc n'" by (cases n) auto
  with 0 show ?case by (simp add: full_iteration_eq)
next
  case (Suc m)
  then obtain n' where n: "n = Suc n'" and mn: "m < n'" by (cases n) auto
  have h0: "\<not> deadline_reached dur start (check_time en w 0)" using Suc.prems(1) by simp
  have "full_loop n' en dur start (after_full 1 w) = Returned (after_full (Suc m) (after_full 1 w))"
  proof (rule Suc.IH)
    fix k assume "k < m"
    then show "\<not> deadline_reached dur start (check_time en (after_full 1 w) k)"
      using Suc.prems(1) [of "Suc k"] by (simp add: check_time_after_full)
  next
    show "deadline_reached dur start (check_time en (after_full 1 w) m)"
      using Suc.prems(2) by (simp add: check_time_after_full)
  qed (rule mn)
  with h0 n show ?case by (simp add: full_iteration_eq after_full_add)
qed











subsection \<open>The idle-time arithmetic\<close>

lemma unat_load_Suc:
  "unat (load :: u32) \<le> 99 \<Longrightarrow> unat (load + 1) = Suc (unat load)"
  by (simp add: unat_word_ariths)

lemma load_Suc_neq_0: "unat (load :: u32) \<le> 99 \<Longrightarrow> load + 1 \<noteq> 0"
proof
  assume a: "unat load \<le> 99" and "load + 1 = 0"
  then have "unat (load + 1) = 0" by simp
  with a show False by (simp add: unat_load_Suc)
qed

lemma quotient_Suc: "a * (100 / real (Suc n)) = a * 100 / (real n + 1)"
  by (simp add: add.commute)

lemma idle_factor_nat: "a * 100 / (real n + 1) - a = a * ((99 - real n) / (real n + 1))"
proof -
  have "real n + 1 \<noteq> 0" by (simp add: add_nonneg_eq_0_iff)
  then show ?thesis by (simp add: field_simps)
qed

lemma idle_nonneg_nat:
  assumes "0 \<le> a" and "n \<le> 99"
  shows "0 \<le> a * 100 / (real n + 1) - a"
proof -
  have "0 \<le> 99 - real n" using assms(2) by simp
  moreover have "0 \<le> real n + 1" by simp
  ultimately have "0 \<le> (99 - real n) / (real n + 1)"
    by (rule divide_nonneg_nonneg)
  with assms(1) show ?thesis
    by (simp only: idle_factor_nat mult_nonneg_nonneg)
qed

lemma idle_decreasing_nat:
  assumes "0 < a" and "m < n"
  shows "a * 100 / (real n + 1) - a < a * 100 / (real m + 1) - a"
proof -
  have "real m + 1 < real n + 1" using assms(2) by simp
  moreover have "0 < real m + 1" by simp
  moreover have "0 < a * 100" using assms(1) by simp
  ultimately have "a * 100 / (real n + 1) < a * 100 / (real m + 1)"
    by (simp only: divide_strict_left_mono mult_pos_pos order_less_trans)
  then show ?thesis by simp
qed

lemma total_time_us_eq:
  "unat load \<le> 99 \<Longrightarrow> total_time_us active load = active * 100 / (real (unat load) + 1)"
  by (simp only: total_time_us_def unat_load_Suc quotient_Suc)

lemma idle_time_us_eq:
  "unat load \<le> 99 \<Longrightarrow>
   idle_time_us active load = active * 100 / (real (unat load) + 1) - active"
  by (simp only: idle_time_us_def total_time_us_eq)


lemma idle_time_us_nonneg:
  "0 \<le> active \<Longrightarrow> unat load \<le> 99 \<Longrightarrow> 0 \<le> idle_time_us active load"
  by (simp only: idle_time_us_eq idle_nonneg_nat)

lemma idle_time_us_decreasing:
  "0 < active \<Longrightarrow> unat l1 < unat l2 \<Longrightarrow> unat l2 \<le> 99 \<Longrightarrow>
   idle_time_us active l2 < idle_time_us active l1"
proof -
  assume a: "0 < active" and b: "unat l1 < unat l2" and c: "unat l2 \<le> 99"
  from b c have d: "unat l1 \<le> 99" by simp
  show ?thesis
    by (simp only: idle_time_us_eq [OF c] idle_time_us_eq [OF d] idle_decreasing_nat [OF a b])
qed

lemma trunc_mono:
  assumes "x \<le> y"
  shows "trunc x \<le> trunc y"
proof (cases "0 \<le> x")
  case True
  with assms have "0 \<le> y" by simp
  with True assms show ?thesis by (simp add: trunc_def floor_mono)
next
  case False
  show ?thesis
  proof (cases "0 \<le> y")
    case True
    have "\<lceil>x\<rceil> \<le> 0" using False by (simp add: ceiling_le_zero)
    moreover have "0 \<le> \<lfloor>y\<rfloor>" using True by simp
    ultimately have "\<lceil>x\<rceil> \<le> \<lfloor>y\<rfloor>" by (rule order_trans)
    then show ?thesis using False True by (simp add: trunc_def)
  next
    case y: False
    with False assms show ?thesis by (simp add: trunc_def ceiling_mono)
  qed
qed

lemma trunc_nonneg: "0 \<le> x \<Longrightarrow> 0 \<le> trunc x"
  by (simp add: trunc_def)

lemma double_to_uint_defined:
  "0 \<le> x \<Longrightarrow> x < 2 ^ 32 \<Longrightarrow> double_to_uint x = Some (word_of_int \<lfloor>x\<rfloor>)"
proof -
  assume a: "0 \<le> x" and b: "x < 2 ^ 32"
  have "\<lfloor>x\<rfloor> < 2 ^ 32" using b by (simp add: floor_less_iff)
  with a show ?thesis by (simp add: double_to_uint_def trunc_def)
qed

text \<open>
  With a load from 1 to 99 and an active time from 0 to below 87 seconds the conversion of
  the idle time has a defined result.
\<close>

lemma idle_bound_nat:
  assumes "0 \<le> a" and "1 \<le> n"
  shows "a * 100 / (real n + 1) - a \<le> 49 * a"
proof -
  have p: "0 < real n + 1" by simp
  have "1 \<le> real n" using assms(2) by simp
  then have "99 - real n \<le> 49 * (real n + 1)" by simp
  with p have "(99 - real n) / (real n + 1) \<le> 49"
    by (simp add: pos_divide_le_eq)
  with assms(1) have "a * ((99 - real n) / (real n + 1)) \<le> a * 49"
    by (rule mult_left_mono [rotated])
  then show ?thesis by (simp only: idle_factor_nat mult.commute [of a 49])
qed

lemma sleep_arg_defined:
  assumes "1 \<le> unat load" and "unat load \<le> 99" and "0 \<le> active" and "active < 87000000"
  shows "sleep_arg active load = Some (word_of_int \<lfloor>idle_time_us active load\<rfloor>)"
proof -
  have e: "idle_time_us active load = active * 100 / (real (unat load) + 1) - active"
    using assms(2) by (rule idle_time_us_eq)
  have "0 \<le> idle_time_us active load"
    using assms(3,2) by (rule idle_time_us_nonneg)
  moreover have "idle_time_us active load \<le> 49 * active"
    unfolding e using assms(3,1) by (rule idle_bound_nat)
  then have "idle_time_us active load < 2 ^ 32" using assms(4) by simp
  ultimately have "double_to_uint (idle_time_us active load)
       = Some (word_of_int \<lfloor>idle_time_us active load\<rfloor>)"
    by (rule double_to_uint_defined)
  then show ?thesis using assms(2) by (simp add: sleep_arg_def load_Suc_neq_0)
qed

subsection \<open>The partial-load pass\<close>

lemma loadgen_eq:
  "loadgen n en cpu load dur w =
     (if load \<noteq> 100
      then partial_loop n en load dur (check_time en w 0) (entered load w)
      else full_loop n en dur (check_time en w 0) (entered load w))"
  by (simp add: loadgen_def gettimeofday_def emit_def check_time_def entered_def Let_def)
















subsection \<open>Idle time against target load\<close>

text \<open>
  C7. For a fixed positive active time, the idle time computed for a larger target load
  within 1 to 99 is strictly smaller, so no target gives a larger idle time than target
  1; the sleep durations, which drop the fraction, are ordered the same way (weakly).
\<close>

theorem idle_time_strictly_decreasing:
  assumes "0 < active" and "1 \<le> unat l1" and "unat l1 < unat l2" and "unat l2 \<le> 99"
  shows "idle_time_us active l2 < idle_time_us active l1
       \<and> idle_time_us active l1 \<le> idle_time_us active 1
       \<and> trunc (idle_time_us active l2) \<le> trunc (idle_time_us active l1)
       \<and> trunc (idle_time_us active l1) \<le> trunc (idle_time_us active 1)"
proof -
  have a: "idle_time_us active l2 < idle_time_us active l1"
    using assms(1,3,4) by (rule idle_time_us_decreasing)
  have b: "idle_time_us active l1 \<le> idle_time_us active 1"
  proof (cases "unat l1 = 1")
    case True
    then have "unat l1 = unat (1 :: u32)" by simp
    then have "l1 = 1" by (simp only: word_unat_eq_iff)
    then show ?thesis by simp
  next
    case False
    with assms(2) have "unat (1 :: u32) < unat l1" by simp
    moreover have "unat l1 \<le> 99" using assms(3,4) by simp
    ultimately have "idle_time_us active l1 < idle_time_us active 1"
      using assms(1) by (simp only: idle_time_us_decreasing)
    then show ?thesis by simp
  qed
  from a have "trunc (idle_time_us active l2) \<le> trunc (idle_time_us active l1)"
    by (simp only: trunc_mono less_imp_le)
  moreover from b have "trunc (idle_time_us active l1) \<le> trunc (idle_time_us active 1)"
    by (rule trunc_mono)
  ultimately show ?thesis using a b by blast
qed

theorem idle_time_strictly_decreasing_witness:
  "(0 :: real) < 1000 \<and> 1 \<le> unat (50 :: u32) \<and> unat (50 :: u32) < unat (75 :: u32)
   \<and> unat (75 :: u32) \<le> 99
   \<and> idle_time_us 1000 75 < idle_time_us 1000 50
   \<and> idle_time_us 1000 50 \<le> idle_time_us 1000 1
   \<and> idle_time_us 1000 1 = 49000 \<and> idle_time_us 1000 99 = 0"
proof -
  have h0: "(0 :: real) < 1000" and h1: "1 \<le> unat (50 :: u32)"
    and h2: "unat (50 :: u32) < unat (75 :: u32)" and h3: "unat (75 :: u32) \<le> 99"
    by simp_all
  have "idle_time_us 1000 1 = 49000" and "idle_time_us 1000 99 = 0"
    by (simp_all add: idle_time_us_def total_time_us_def)
  with idle_time_strictly_decreasing [OF h0 h1 h2 h3] h0 h1 h2 h3 show ?thesis by blast
qed

subsection \<open>The guard of the task entry point\<close>

lemma thread_loadgen_guard:
  assumes "1 \<le> cpu_count g" and "cpu_count g < 2 ^ 31"
  shows "(cpu < (word_of_int (cpu_count g) :: u32)) = (int (unat cpu) < cpu_count g)"
proof -
  have "uint (word_of_int (cpu_count g) :: u32) = cpu_count g"
    using assms by (simp add: uint_word_of_int take_bit_int_eq_self)
  then show ?thesis by (simp add: word_less_def)
qed

text \<open>
  C10. With a detected core count from 1 up (below \<open>2 ^ 31\<close>, as an \<^verbatim>\<open>int\<close>), the
  task entry point calls \<^verbatim>\<open>loadgen\<close> exactly when the index it received is less than
  the core count; for any other index it prints the invalid-cpu message and returns,
  with no burst run and no clock read.
\<close>

theorem thread_loadgen_guards_loadgen:
  assumes "1 \<le> cpu_count g" and "cpu_count g < 2 ^ 31"
  shows "thread_loadgen n en g cpu w =
           (if int (unat cpu) < cpu_count g
            then loadgen n en cpu (word_of_int (cpuloads g ! unat cpu)) (word_of_int (duration g))
                   (emit Call_mutex_unlock w)
            else Returned (w\<lparr>events := events w @ [Call_mutex_unlock, Msg_invalid_cpu cpu]\<rparr>))"
  by (simp add: thread_loadgen_def thread_loadgen_guard [OF assms] emit_def Let_def)

theorem thread_loadgen_guards_loadgen_witness:
  "1 \<le> cpu_count \<lparr>cpu_count = 2, cpuloads = [100, 50], duration = 5\<rparr>
   \<and> cpu_count \<lparr>cpu_count = 2, cpuloads = [100, 50], duration = 5\<rparr> < 2 ^ 31
   \<and> thread_loadgen 3 env_steady \<lparr>cpu_count = 2, cpuloads = [100, 50], duration = 5\<rparr> 2 world0
       = Returned \<lparr>dtime_calls = 0, tod_calls = 0, rand_calls = 0, sqrt_calls = 0,
                   events = [Call_mutex_unlock, Msg_invalid_cpu 2]\<rparr>
   \<and> thread_loadgen 3 env_steady \<lparr>cpu_count = 2, cpuloads = [100, 50], duration = 5\<rparr> 1 world0
       = loadgen 3 env_steady 1 50 5 (emit Call_mutex_unlock world0)"
proof -
  let ?g = "\<lparr>cpu_count = 2, cpuloads = [100, 50], duration = 5\<rparr>"
  have h1: "1 \<le> cpu_count ?g" and h2: "cpu_count ?g < 2 ^ 31" by simp_all
  show ?thesis
    using thread_loadgen_guards_loadgen [OF h1 h2, of 3 env_steady 2 world0]
      thread_loadgen_guards_loadgen [OF h1 h2, of 3 env_steady 1 world0]
    by (simp add: world0_def)
qed

subsection \<open>A measured active time below zero\<close>

text \<open>
  For an active time that is not negative the idle time is not negative either (lemma
  \<open>idle_time_us_nonneg\<close>), since \<open>100 / (load + 1)\<close> is at least 1 up to load 99.
  The total time is below the active time only when the second reading of \<^verbatim>\<open>dtime()\<close>
  is below the first.
\<close>

lemma idle_clock_back: "idle_time_us (active_time_us 10 9) 50 = - (49000000 / 51)"
  by (simp add: idle_time_us_def total_time_us_def active_time_us_def)

lemma sleep_arg_clock_back: "sleep_arg (active_time_us 10 9) 50 = None"
proof -
  have "\<lceil>- (49000000 / 51 :: real)\<rceil> = - 960784"
    by (simp add: ceiling_unique)
  then show ?thesis
    by (simp add: sleep_arg_def idle_clock_back double_to_uint_def trunc_def)
qed

text \<open>
  C2 (what the code does at a clock set back by one second during the burst, load 50).
  The measured active time is \<open>-1000000\<close> microseconds, the total time is below it,
  the idle time is about \<open>-960784.3\<close>, and the pass converts this negative value to
  \<^verbatim>\<open>unsigned int\<close> for \<^verbatim>\<open>usleep\<close>: nothing clamps it to zero, and the conversion
  has no defined result.
\<close>

theorem negative_idle_time_not_clamped:
  "partial_iteration env_clock_back 50 5 0 world0
     = Undefined_conversion \<lparr>dtime_calls = 2, tod_calls = 0, rand_calls = 50000,
         sqrt_calls = 50000, events = [Call_workload 50000]\<rparr>
   \<and> burst_active env_clock_back world0 0 = - 1000000
   \<and> total_time_us (- 1000000) 50 < - 1000000
   \<and> idle_time_us (- 1000000) 50 = - (49000000 / 51)
   \<and> sleep_arg (- 1000000) 50 = None"
proof -
  have a: "burst_active env_clock_back world0 0 = - 1000000"
    by (simp add: burst_active_def env_clock_back_def world0_def active_time_us_def)
  have b: "active_time_us 10 9 = - 1000000" by (simp add: active_time_us_def)
  have "total_time_us (- 1000000) 50 < - 1000000" by (simp add: total_time_us_def)
  then show ?thesis
    using a sleep_arg_clock_back idle_clock_back
    by (simp add: partial_iteration_eq b world0_def)
qed

subsection \<open>Full-load mode\<close>

lemma full_loop_state:
  "\<exists>j\<le>n. full_loop n en dur start w = Looping (after_full j w) \<and> j = n
        \<or> full_loop n en dur start w = Returned (after_full j w)"
proof (induction n arbitrary: w)
  case 0
  show ?case by (simp add: after_full_def)
next
  case (Suc n)
  show ?case
  proof (cases "deadline_reached dur start (check_time en w 0)")
    case True
    then have "full_loop (Suc n) en dur start w = Returned (after_full 1 w)"
      by (simp add: full_iteration_eq)
    then show ?thesis by (intro exI [of _ 1]) simp
  next
    case False
    from Suc.IH [of "after_full 1 w"] obtain j where j: "j \<le> n"
      and e: "full_loop n en dur start (after_full 1 w) = Looping (after_full (Suc j) w) \<and> j = n
        \<or> full_loop n en dur start (after_full 1 w) = Returned (after_full (Suc j) w)"
      by (auto simp: after_full_add)
    have "full_loop (Suc n) en dur start w = full_loop n en dur start (after_full 1 w)"
      using False by (simp add: full_iteration_eq)
    with e j show ?thesis by (intro exI [of _ "Suc j"]) auto
  qed
qed

lemma events_after_full:
  "events (after_full j (entered l w)) = events w @ Msg_generating l # replicate j (Call_workload 1000000)"
  by (simp add: after_full_def entered_def)

lemma filter_usleep_replicate: "filter is_usleep (replicate j (Call_workload x)) = []"
  by (induction j) simp_all

lemma loadgen_full_steady:
  "loadgen 5 env_steady 0 100 2 world0
     = Returned \<lparr>dtime_calls = 0, tod_calls = 3, rand_calls = 2000000, sqrt_calls = 2000000,
         events = [Msg_generating 100, Call_workload 1000000, Call_workload 1000000]\<rparr>"
proof -
  have "full_loop 5 env_steady 2 (check_time env_steady world0 0) (entered 100 world0)
        = Returned (after_full (Suc 1) (entered 100 world0))"
    by (rule full_loop_returned)
       (simp_all add: deadline_reached_def check_time_def env_steady_def entered_def world0_def
          tv_seconds_def)
  then show ?thesis
    by (simp add: loadgen_eq after_full_def entered_def world0_def numeral_2_eq_2)
qed

text \<open>
  C4. With target load 100, whatever the duration and however many passes are followed,
  \<^verbatim>\<open>loadgen\<close> stays in the full-load loop: after its start message the trace holds
  bursts of 1000000 iterations only, one reading of the wall clock follows each burst,
  \<^verbatim>\<open>dtime()\<close> is never called (no active time is measured, no idle time computed),
  and no \<^verbatim>\<open>usleep\<close> is issued. A task still looping after \<open>n\<close> passes has run \<open>n\<close>
  bursts.
\<close>

theorem loadgen_full_load_never_sleeps:
  "\<exists>j\<le>n.
     (loadgen n en cpu 100 dur w = Looping (state_of (loadgen n en cpu 100 dur w)) \<and> j = n
      \<or> loadgen n en cpu 100 dur w = Returned (state_of (loadgen n en cpu 100 dur w)))
     \<and> events (state_of (loadgen n en cpu 100 dur w))
         = events w @ Msg_generating 100 # replicate j (Call_workload 1000000)
     \<and> filter is_usleep (events (state_of (loadgen n en cpu 100 dur w)))
         = filter is_usleep (events w)
     \<and> tod_calls (state_of (loadgen n en cpu 100 dur w)) = tod_calls w + 1 + j
     \<and> dtime_calls (state_of (loadgen n en cpu 100 dur w)) = dtime_calls w"
proof -
  let ?R = "loadgen n en cpu 100 dur w"
  have R: "?R = full_loop n en dur (check_time en w 0) (entered 100 w)"
    by (simp add: loadgen_eq)
  obtain j where j: "j \<le> n"
    and c: "?R = Looping (after_full j (entered 100 w)) \<and> j = n
          \<or> ?R = Returned (after_full j (entered 100 w))"
    using full_loop_state [of n en dur "check_time en w 0" "entered 100 w"] R by auto
  then have s: "state_of ?R = after_full j (entered 100 w)" by auto
  have "events (state_of ?R) = events w @ Msg_generating 100 # replicate j (Call_workload 1000000)"
    by (simp only: s events_after_full)
  moreover have "filter is_usleep (events (state_of ?R)) = filter is_usleep (events w)"
    by (simp add: s events_after_full filter_usleep_replicate)
  moreover have "tod_calls (state_of ?R) = tod_calls w + 1 + j"
    by (simp add: s after_full_def entered_def)
  moreover have "dtime_calls (state_of ?R) = dtime_calls w"
    by (simp add: s after_full_def entered_def)
  moreover have "?R = Looping (state_of ?R) \<and> j = n \<or> ?R = Returned (state_of ?R)"
    using c by auto
  ultimately show ?thesis using j by blast
qed

theorem loadgen_full_load_never_sleeps_witness:
  "loadgen 5 env_steady 0 100 2 world0
     = Returned \<lparr>dtime_calls = 0, tod_calls = 3, rand_calls = 2000000, sqrt_calls = 2000000,
         events = [Msg_generating 100, Call_workload 1000000, Call_workload 1000000]\<rparr>
   \<and> filter is_usleep (events (state_of (loadgen 5 env_steady 0 100 2 world0))) = []"
proof -
  have a: "filter is_usleep (events (state_of (loadgen 5 env_steady 0 100 2 world0)))
         = filter is_usleep (events world0)"
    using loadgen_full_load_never_sleeps [of 5 env_steady 0 2 world0] by blast
  have b: "events world0 = []" by (simp add: world0_def)
  from a b have "filter is_usleep (events (state_of (loadgen 5 env_steady 0 100 2 world0))) = []"
    by simp
  with loadgen_full_steady show ?thesis by blast
qed

subsection \<open>The deadline\<close>

text \<open>With duration 0 the check never fires, in either mode, for any clock.\<close>

lemma not_deadline_zero: "\<not> deadline_reached 0 start t"
  by (simp add: deadline_reached_def)

lemma full_loop_zero_duration: "full_loop n en 0 start w \<noteq> Returned w'"
  using full_loop_looping [of n 0 start en w] by (simp add: not_deadline_zero)

lemma partial_loop_zero_duration: "partial_loop n en load 0 start w \<noteq> Returned w'"
proof (induction n arbitrary: w)
  case 0
  show ?case by simp
next
  case (Suc n)
  show ?case
    using Suc.IH
    by (simp add: partial_iteration_eq not_deadline_zero split: option.splits)
qed

lemma loadgen_zero_duration: "loadgen n en cpu load 0 w \<noteq> Returned w'"
  by (simp add: loadgen_eq full_loop_zero_duration partial_loop_zero_duration)






text \<open>
  C5 (what the code does when no duration is given). \<^verbatim>\<open>main\<close> leaves the global
  \<^verbatim>\<open>duration\<close> at \<open>-1\<close>; the call of \<^verbatim>\<open>loadgen\<close> converts it to the
  \<^verbatim>\<open>unsigned int\<close> 4294967295, which is not 0, so the deadline check is armed: on a
  wall clock that reads 4294967295 seconds past the start, the task leaves its loop
  after the first burst. (With duration 0 the check never fires: lemma
  \<open>loadgen_zero_duration\<close>.)
\<close>

theorem absent_duration_deadline_fires:
  "configure 1 [] = Inr \<lparr>cpu_count = 1, cpuloads = [100], duration = - 1\<rparr>
   \<and> (word_of_int (- 1) :: u32) = 4294967295
   \<and> thread_loadgen 1 env_far \<lparr>cpu_count = 1, cpuloads = [100], duration = - 1\<rparr> 0 world0
       = Returned \<lparr>dtime_calls = 0, tod_calls = 2, rand_calls = 1000000, sqrt_calls = 1000000,
           events = [Call_mutex_unlock, Msg_generating 100, Call_workload 1000000]\<rparr>"
proof -
  have m: "(word_of_int (- 1) :: u32) = 4294967295" by simp
  have m': "(- 1 :: u32) = 4294967295" by simp
  have d: "deadline_reached 4294967295 0 4294967295" by (simp add: deadline_reached_def)
  have "configure 1 [] = Inr \<lparr>cpu_count = 1, cpuloads = [100], duration = - 1\<rparr>"
    by (simp add: configure_def)
  moreover have "thread_loadgen 1 env_far \<lparr>cpu_count = 1, cpuloads = [100], duration = - 1\<rparr> 0 world0
       = loadgen 1 env_far 0 100 4294967295 (emit Call_mutex_unlock world0)"
    by (simp add: thread_loadgen_def Let_def m')
  moreover have "loadgen 1 env_far 0 100 4294967295 (emit Call_mutex_unlock world0)
       = Returned \<lparr>dtime_calls = 0, tod_calls = 2, rand_calls = 1000000, sqrt_calls = 1000000,
           events = [Call_mutex_unlock, Msg_generating 100, Call_workload 1000000]\<rparr>"
    using d
    by (simp add: loadgen_eq full_iteration_eq check_time_def
      env_far_def emit_def world0_def entered_def after_full_def tv_seconds_def)
  ultimately show ?thesis using m by simp
qed

subsection \<open>The Orchestrator\<close>

lemma started_append: "started (xs @ ys) = started xs @ started ys"
  by (induction xs rule: started.induct) simp_all

lemma joined_append: "joined (xs @ ys) = joined xs @ joined ys"
  by (induction xs rule: joined.induct) simp_all

lemma join_tasks_ok:
  assumes "\<forall>i\<in>set is. loads ! i \<noteq> - 1 \<longrightarrow> threads s ! i \<noteq> No_thread"
  shows "join_tasks loads is s
     = Done (s\<lparr>trace := trace s @ map (\<lambda>i. Call_join (threads s ! i))
                                     (filter (\<lambda>i. loads ! i \<noteq> - 1) is)\<rparr>)"
  using assms
proof (induction "is" arbitrary: s)
  case Nil
  show ?case by simp
next
  case (Cons i "is")
  show ?case
  proof (cases "loads ! i = - 1")
    case True
    with Cons.IH [of s] Cons.prems show ?thesis by simp
  next
    case False
    with Cons.prems obtain k where k: "threads s ! i = Thread k"
      by (cases "threads s ! i") auto
    let ?s1 = "s\<lparr>trace := trace s @ [Call_join (threads s ! i)]\<rparr>"
    have "\<forall>j\<in>set is. loads ! j \<noteq> - 1 \<longrightarrow> threads ?s1 ! j \<noteq> No_thread"
      using Cons.prems by simp
    from Cons.IH [OF this] False k show ?thesis by (simp add: Let_def)
  qed
qed

lemma start_tasks_ok:
  assumes "\<forall>i\<in>set is. loads ! i \<noteq> - 1 \<longrightarrow> create_ret i = 0"
    and "\<not> mutex1_locked s"
  shows "\<exists>s'. start_tasks create_ret loads is s = Done s'
          \<and> \<not> mutex1_locked s'
          \<and> trace s' = trace s @ concat (map (\<lambda>i. [Call_mutex_lock, Created i i])
                                       (filter (\<lambda>i. loads ! i \<noteq> - 1) is))
          \<and> length (threads s') = length (threads s)
          \<and> (\<forall>i. threads s' ! i =
                (if i \<in> set is \<and> loads ! i \<noteq> - 1 \<and> i < length (threads s)
                 then Thread i else threads s ! i))"
  using assms
proof (induction "is" arbitrary: s)
  case Nil
  then show ?case by simp
next
  case (Cons i "is")
  show ?case
  proof (cases "loads ! i = - 1")
    case True
    with Cons.IH [of s] Cons.prems show ?thesis by auto
  next
    case False
    let ?s2 = "s\<lparr>threads := (threads s)[i := Thread i], mutex1_locked := False,
                  trace := trace s @ [Call_mutex_lock, Created i i]\<rparr>"
    have upd: "(threads s)[i := Thread i] ! j
        = (if j = i \<and> i < length (threads s) then Thread i else threads s ! j)" for j
      by (cases "j = i") (auto simp: list_update_beyond not_less)
    have c: "create_ret i = 0" using Cons.prems(1) False by simp
    have st: "start_tasks create_ret loads (i # is) s = start_tasks create_ret loads is ?s2"
      using False c Cons.prems(2) by (simp add: Let_def)
    have "\<forall>i\<in>set is. loads ! i \<noteq> - 1 \<longrightarrow> create_ret i = 0" using Cons.prems(1) by simp
    moreover have "\<not> mutex1_locked ?s2" by simp
    ultimately obtain s' where s': "start_tasks create_ret loads is ?s2 = Done s'"
      "\<not> mutex1_locked s'"
      "trace s' = trace ?s2 @ concat (map (\<lambda>i. [Call_mutex_lock, Created i i])
                                       (filter (\<lambda>i. loads ! i \<noteq> - 1) is))"
      "length (threads s') = length (threads ?s2)"
      "\<forall>j. threads s' ! j =
                (if j \<in> set is \<and> loads ! j \<noteq> - 1 \<and> j < length (threads ?s2)
                 then Thread j else threads ?s2 ! j)"
      using Cons.IH [of ?s2] by blast
    have "\<forall>j. threads s' ! j =
                (if j \<in> set (i # is) \<and> loads ! j \<noteq> - 1 \<and> j < length (threads s)
                 then Thread j else threads s ! j)"
      using s'(5) False by (auto simp: upd)
    with s' st False show ?thesis by simp
  qed
qed


lemma started_passes:
  "started (concat (map (\<lambda>i. [Call_mutex_lock, Created i i]) is)) = is"
  by (induction "is") simp_all

lemma joined_passes:
  "joined (concat (map (\<lambda>i. [Call_mutex_lock, Created i i]) is)) = []"
  by (induction "is") simp_all

lemma started_joins: "started (map (\<lambda>i. Call_join (f i)) is) = []"
  by (induction "is") simp_all

lemma joined_joins: "joined (map (\<lambda>i. Call_join (f i)) is) = map f is"
  by (induction "is") simp_all

text \<open>
  When every \<^verbatim>\<open>pthread_create\<close> succeeds, \<^verbatim>\<open>main\<close> gets through both loops; the
  tasks it starts are, in increasing order and once each, the cores whose load is set,
  and the handles it joins are exactly those of the tasks it started.
\<close>

lemma run_tasks_all_created:
  assumes "cpu_count g = int (length (cpuloads g))"
    and "\<forall>i<length (cpuloads g). cpuloads g ! i \<noteq> - 1 \<longrightarrow> create_ret i = 0"
  shows "\<exists>s. run_tasks create_ret g = Done s
          \<and> started (trace s) = filter (\<lambda>i. cpuloads g ! i \<noteq> - 1) [0..<length (cpuloads g)]
          \<and> joined (trace s) = map Thread (started (trace s))"
proof -
  let ?n = "length (cpuloads g)"
  let ?set = "filter (\<lambda>i. cpuloads g ! i \<noteq> - 1) [0..<?n]"
  have n: "nat (cpu_count g) = ?n" using assms(1) by simp
  have "\<forall>i\<in>set [0..<?n]. cpuloads g ! i \<noteq> - 1 \<longrightarrow> create_ret i = 0"
    using assms(2) by simp
  moreover have "\<not> mutex1_locked (main_state0 ?n)" by (simp add: main_state0_def)
  ultimately obtain s' where s': "start_tasks create_ret (cpuloads g) [0..<?n] (main_state0 ?n) = Done s'"
    and l: "trace s' = trace (main_state0 ?n)
              @ concat (map (\<lambda>i. [Call_mutex_lock, Created i i]) ?set)"
    and len: "length (threads s') = length (threads (main_state0 ?n))"
    and th: "\<forall>i. threads s' ! i =
                (if i \<in> set [0..<?n] \<and> cpuloads g ! i \<noteq> - 1 \<and> i < length (threads (main_state0 ?n))
                 then Thread i else threads (main_state0 ?n) ! i)"
    using start_tasks_ok [of "[0..<?n]" "cpuloads g" create_ret "main_state0 ?n"] by blast
  have l': "trace s' = concat (map (\<lambda>i. [Call_mutex_lock, Created i i]) ?set)"
    using l by (simp add: main_state0_def)
  have th': "threads s' ! i = Thread i" if "i \<in> set ?set" for i
    using th that by (simp add: main_state0_def)
  have j: "map (\<lambda>i. Call_join (threads s' ! i)) ?set = map (\<lambda>i. Call_join (Thread i)) ?set"
    using th' by (intro map_cong) auto
  let ?s = "s'\<lparr>trace := trace s' @ map (\<lambda>i. Call_join (threads s' ! i)) ?set\<rparr>"
  have "\<forall>i\<in>set [0..<?n]. cpuloads g ! i \<noteq> - 1 \<longrightarrow> threads s' ! i \<noteq> No_thread"
    using th' by auto
  then have "join_tasks (cpuloads g) [0..<?n] s' = Done ?s"
    by (rule join_tasks_ok)
  then have r: "run_tasks create_ret g = Done ?s"
    by (simp add: run_tasks_def n s')
  have t: "trace ?s = concat (map (\<lambda>i. [Call_mutex_lock, Created i i]) ?set)
                        @ map (\<lambda>i. Call_join (Thread i)) ?set"
    by (simp add: l' j)
  have "started (trace ?s) = ?set"
    by (simp only: t started_append started_passes started_joins append_Nil2)
  moreover have "joined (trace ?s) = map Thread ?set"
    by (simp only: t joined_append joined_passes joined_joins append_Nil)
  ultimately show ?thesis using r by simp
qed

lemma run_tasks_three_cores:
  "\<exists>s. run_tasks create_ok three_cores = Done s
      \<and> started (trace s) = [0, 2]
      \<and> joined (trace s) = [Thread 0, Thread 2]"
proof -
  have h1: "cpu_count three_cores = int (length (cpuloads three_cores))"
    by (simp add: three_cores_def)
  have h2: "\<forall>i<length (cpuloads three_cores). cpuloads three_cores ! i \<noteq> - 1 \<longrightarrow> create_ok i = 0"
    by (simp add: create_ok_def)
  have f: "filter (\<lambda>i. cpuloads three_cores ! i \<noteq> - 1) [0..<length (cpuloads three_cores)] = [0, 2]"
    by (simp add: three_cores_def upt_rec)
  from run_tasks_all_created [OF h1 h2] obtain s where
    "run_tasks create_ok three_cores = Done s"
    "started (trace s) = [0, 2]" "joined (trace s) = map Thread (started (trace s))"
    by (auto simp: f)
  then show ?thesis by simp
qed

text \<open>
  Whatever \<^verbatim>\<open>pthread_create\<close> returns, a task is started only for a core whose load
  is set.
\<close>

lemma start_tasks_started:
  "set (started (trace (main_state_of (start_tasks create_ret loads is s))))
     \<subseteq> set (started (trace s)) \<union> {i \<in> set is. loads ! i \<noteq> - 1}"
proof (induction "is" arbitrary: s)
  case Nil
  show ?case by simp
next
  case (Cons i "is")
  show ?case
  proof (cases "loads ! i = - 1")
    case True
    with Cons.IH [of s] show ?thesis by auto
  next
    case False
    show ?thesis
    proof (cases "mutex1_locked s")
      case True
      with False show ?thesis by simp
    next
      case unlocked: False
      let ?s1 = "s\<lparr>mutex1_locked := True, trace := trace s @ [Call_mutex_lock]\<rparr>"
      show ?thesis
      proof (cases "create_ret i = 0")
        case True
        let ?s2 = "?s1\<lparr>threads := (threads ?s1)[i := Thread i], mutex1_locked := False,
                       trace := trace ?s1 @ [Created i i]\<rparr>"
        have "start_tasks create_ret loads (i # is) s = start_tasks create_ret loads is ?s2"
          using False unlocked True by (simp add: Let_def)
        moreover have "set (started (trace ?s2)) = insert i (set (started (trace s)))"
          by (simp add: started_append)
        ultimately show ?thesis using Cons.IH [of ?s2] False by auto
      next
        case failed: False
        let ?s2 = "?s1\<lparr>trace := trace ?s1 @ [Msg_failed_fork i (create_ret i)]\<rparr>"
        have "start_tasks create_ret loads (i # is) s = start_tasks create_ret loads is ?s2"
          using False unlocked failed by (simp add: Let_def)
        moreover have "set (started (trace ?s2)) = set (started (trace s))"
          by (simp add: started_append)
        ultimately show ?thesis using Cons.IH [of ?s2] by auto
      qed
    qed
  qed
qed

lemma join_tasks_started:
  "started (trace (main_state_of (join_tasks loads is s))) = started (trace s)"
proof (induction "is" arbitrary: s)
  case Nil
  show ?case by simp
next
  case (Cons i "is")
  show ?case
  proof (cases "loads ! i = - 1")
    case True
    with Cons.IH [of s] show ?thesis by simp
  next
    case False
    let ?s1 = "s\<lparr>trace := trace s @ [Call_join (threads s ! i)]\<rparr>"
    have "started (trace ?s1) = started (trace s)" by (simp add: started_append)
    with Cons.IH [of ?s1] False show ?thesis
      by (cases "threads s ! i") (simp_all add: Let_def)
  qed
qed

lemma run_tasks_started:
  "set (started (trace (main_state_of (run_tasks create_ret g))))
     \<subseteq> {i. i < nat (cpu_count g) \<and> cpuloads g ! i \<noteq> - 1}"
proof -
  let ?n = "nat (cpu_count g)"
  let ?r = "start_tasks create_ret (cpuloads g) [0..<?n] (main_state0 ?n)"
  have a: "set (started (trace (main_state_of ?r)))
             \<subseteq> {i. i < ?n \<and> cpuloads g ! i \<noteq> - 1}"
    using start_tasks_started [of create_ret "cpuloads g" "[0..<?n]" "main_state0 ?n"]
    by (auto simp: main_state0_def)
  show ?thesis
  proof (cases ?r)
    case (Done s)
    with a show ?thesis by (simp add: run_tasks_def Let_def join_tasks_started)
  next
    case (Blocked s)
    with a show ?thesis by (simp add: run_tasks_def Let_def)
  next
    case (Undefined_join s)
    with a show ?thesis by (simp add: run_tasks_def Let_def)
  qed
qed

text \<open>
  C9 (what the code does when a creation fails). One core, its load set,
  \<^verbatim>\<open>pthread_create\<close> returns \<^verbatim>\<open>EAGAIN\<close>: \<^verbatim>\<open>main\<close> prints its message and goes on
  (it does not return), no task is started for the core, the mutex stays locked, and
  the second loop calls \<^verbatim>\<open>pthread_join\<close> on the slot of the core, which still holds
  the initial \<^verbatim>\<open>-1\<close>: a join on a thread that \<^verbatim>\<open>main\<close> never started.
\<close>

theorem failed_creation_is_joined:
  "main 1 True [] create_fails
     = Inr (Undefined_join \<lparr>mutex1_locked = True, threads = [No_thread],
                  trace = [Call_mutex_lock, Msg_failed_fork 0 11, Call_join No_thread]\<rparr>)
   \<and> started [Call_mutex_lock, Msg_failed_fork 0 11, Call_join No_thread] = []
   \<and> joined [Call_mutex_lock, Msg_failed_fork 0 11, Call_join No_thread] = [No_thread]"
  by (simp add: main_def configure_def run_tasks_def main_state0_def create_fails_def Let_def)

text \<open>
  With two cores and a failed first creation, the mutex stays locked and \<^verbatim>\<open>main\<close>
  blocks in \<^verbatim>\<open>pthread_mutex_lock\<close> before the second core gets its task.
\<close>

lemma failed_creation_blocks:
  "main 2 True [] (\<lambda>i. if i = 0 then 11 else 0)
     = Inr (Blocked \<lparr>mutex1_locked = True, threads = [No_thread, No_thread],
                  trace = [Call_mutex_lock, Msg_failed_fork 0 11]\<rparr>)"
  by (simp add: main_def configure_def run_tasks_def main_state0_def Let_def upt_rec numeral_2_eq_2)

subsection \<open>The start-time handoff\<close>

lemma handoff_inv_init: "handoff_inv loads (sys0 c)"
  by (simp add: handoff_inv_def sys0_def)

lemma pending_cases: "pending t = (t = Some Spawned \<or> (\<exists>cpu. t = Some (Copied cpu)))"
  by (cases t rule: pending.cases) simp_all

lemma observed_cases:
  "(observed t = Some cpu) = (t = Some (Copied cpu) \<or> t = Some (Unlocked cpu))"
  by (cases t rule: observed.cases) auto

lemma handoff_inv_orchestrator:
  assumes "handoff_inv loads s"
  shows "handoff_inv loads (orchestrator_step create_ret loads s)"
proof (cases "main_at s")
  case At_head
  with assms show ?thesis
    unfolding handoff_inv_def orchestrator_step_def
    by (auto simp: less_Suc_eq)
next
  case At_assign
  with assms show ?thesis
    unfolding handoff_inv_def orchestrator_step_def
    by (auto simp: pending_cases)
next
  case At_create
  with assms show ?thesis
    unfolding handoff_inv_def orchestrator_step_def
    by (auto simp: Let_def pending_cases observed_cases split: if_splits)
next
  case (At_next ret)
  with assms show ?thesis
    unfolding handoff_inv_def orchestrator_step_def
    by (auto simp: less_Suc_eq)
qed


lemma handoff_inv_task:
  assumes "handoff_inv loads s"
  shows "handoff_inv loads (task_step k s)"
proof (cases "task_of s k")
  case None
  with assms show ?thesis by (simp add: task_step_def)
next
  case (Some t)
  show ?thesis
  proof (cases t)
    case Spawned
    with Some assms show ?thesis
      unfolding handoff_inv_def task_step_def
      by (auto simp: pending_cases observed_cases split: if_splits)
  next
    case (Copied cpu)
    with Some assms show ?thesis
      unfolding handoff_inv_def task_step_def
      by (auto simp: pending_cases observed_cases split: if_splits)
  next
    case (Unlocked cpu)
    with Some assms show ?thesis by (simp add: task_step_def)
  qed
qed

lemma handoff_inv_step:
  "handoff_inv loads s \<Longrightarrow> handoff_inv loads (step create_ret loads a s)"
  by (cases a) (simp_all add: handoff_inv_orchestrator handoff_inv_task)

lemma handoff_inv_interleave:
  "handoff_inv loads s \<Longrightarrow> handoff_inv loads (interleave create_ret loads sched s)"
  by (induction sched arbitrary: s) (simp_all add: handoff_inv_step)

lemma of_nat_u32_inj:
  assumes "k < 2 ^ 31" and "k' < 2 ^ 31" and "(of_nat k :: u32) = of_nat k'"
  shows "k = k'"
proof -
  have "k < 2 ^ LENGTH(32)" using assms(1) by simp
  then have a: "unat (of_nat k :: u32) = k" by (rule of_nat_inverse [OF refl])
  have "k' < 2 ^ LENGTH(32)" using assms(2) by simp
  then have b: "unat (of_nat k' :: u32) = k'" by (rule of_nat_inverse [OF refl])
  have "unat (of_nat k :: u32) = unat (of_nat k' :: u32)" by (simp only: assms(3))
  then show ?thesis by (simp only: a b)
qed

lemma interleave_two_cores:
  "task_of (interleave create_ok two_cores sched_interleaved (sys0 7)) 0 = Some (Unlocked 0)
   \<and> task_of (interleave create_ok two_cores sched_interleaved (sys0 7)) 1 = Some (Unlocked 1)
   \<and> loop_i (interleave create_ok two_cores sched_interleaved (sys0 7)) = 2"
  by (simp add: sched_interleaved_def two_cores_def sys0_def create_ok_def
      orchestrator_step_def task_step_def Let_def)

text \<open>
  C6. Under every interleaving of the orchestrator with the tasks it creates (fewer than
  \<open>2 ^ 31\<close> cores): a task that has made its private copy holds the index of the core
  it was created for, which is a core with a load set; two tasks that hold the same
  index are the same task; and as long as a created task has not made its copy, the
  variable \<^verbatim>\<open>cpu\<close> it will read still holds its index and the mutex is held, so that
  the orchestrator cannot assign \<^verbatim>\<open>cpu\<close> again before the copy is made.
\<close>

theorem tasks_observe_own_index:
  assumes "length loads < 2 ^ 31"
  shows "(\<forall>k cpu. observed (task_of (interleave create_ret loads sched (sys0 c)) k) = Some cpu
            \<longrightarrow> cpu = of_nat k \<and> k < length loads \<and> loads ! k \<noteq> - 1)
       \<and> (\<forall>k k' cpu. observed (task_of (interleave create_ret loads sched (sys0 c)) k) = Some cpu
            \<and> observed (task_of (interleave create_ret loads sched (sys0 c)) k') = Some cpu
            \<longrightarrow> k = k')
       \<and> (\<forall>k. task_of (interleave create_ret loads sched (sys0 c)) k = Some Spawned
            \<longrightarrow> cpu_cell (interleave create_ret loads sched (sys0 c)) = int k
                \<and> mutex1 (interleave create_ret loads sched (sys0 c)))"
proof -
  let ?s = "interleave create_ret loads sched (sys0 c)"
  have inv: "handoff_inv loads ?s"
    by (rule handoff_inv_interleave) (rule handoff_inv_init)
  have own: "cpu = of_nat k \<and> k < length loads \<and> loads ! k \<noteq> - 1"
    if "observed (task_of ?s k) = Some cpu" for k cpu
  proof -
    from that have "task_of ?s k \<noteq> None" by (auto simp: observed_cases)
    with inv that show ?thesis unfolding handoff_inv_def by blast
  qed
  have distinct: "k = k'"
    if "observed (task_of ?s k) = Some cpu" and "observed (task_of ?s k') = Some cpu" for k k' cpu
  proof -
    from own [OF that(1)] own [OF that(2)] assms
    have "k < 2 ^ 31" "k' < 2 ^ 31" "(of_nat k :: u32) = of_nat k'" by auto
    then show ?thesis by (rule of_nat_u32_inj)
  qed
  have held: "cpu_cell ?s = int k \<and> mutex1 ?s" if "task_of ?s k = Some Spawned" for k
  proof -
    from that have "pending (task_of ?s k)" by simp
    with inv that show ?thesis unfolding handoff_inv_def by blast
  qed
  from own distinct held show ?thesis by blast
qed

theorem tasks_observe_own_index_witness:
  "length two_cores < 2 ^ 31
   \<and> observed (task_of (interleave create_ok two_cores sched_interleaved (sys0 7)) 0) = Some 0
   \<and> observed (task_of (interleave create_ok two_cores sched_interleaved (sys0 7)) 1) = Some 1
   \<and> (1 :: u32) = of_nat 1 \<and> 1 < length two_cores \<and> two_cores ! 1 \<noteq> - 1"
proof -
  have h: "length two_cores < 2 ^ 31" by (simp add: two_cores_def)
  have o0: "observed (task_of (interleave create_ok two_cores sched_interleaved (sys0 7)) 0) = Some 0"
    and o1: "observed (task_of (interleave create_ok two_cores sched_interleaved (sys0 7)) 1) = Some 1"
    using interleave_two_cores by simp_all
  from tasks_observe_own_index [OF h, of create_ok sched_interleaved 7] o1
  have "(1 :: u32) = of_nat 1 \<and> 1 < length two_cores \<and> two_cores ! 1 \<noteq> - 1"
    by blast
  with h o0 o1 show ?thesis by blast
qed

end
